theory Spec2Isabelle
  imports Main "HOL-Library.Log_Nat"
begin

section \<open>Saga coordinator (internal/transaction/saga.go)\<close>

text \<open>
  A step's \<open>Do\<close> and \<open>Compensate\<close> are caller-supplied closures with side effects. They
  are functions on a world \<open>'w\<close> of whatever they touch, returning the error
  (\<open>None\<close> is Go's \<open>nil\<close>) and the new world.
\<close>

record ('w, 'e) Step =
  Name :: string
  Do :: "'w \<Rightarrow> 'e option \<times> 'w"
  Compensate :: "'w \<Rightarrow> 'e option \<times> 'w"

record ('w, 'e) Saga =
  steps :: "('w, 'e) Step list"
  executedSteps :: "nat list"

text \<open>
  What a run leaves behind: the world, the calls the coordinator made (in order), and the
  lines \<open>compensate\<close> printed on the standard output, each with the step name and the
  compensation error it formats.
\<close>

datatype call = ActionCall nat | CompensationCall nat

record ('w, 'e) run =
  world :: 'w
  calls :: "call list"
  printed :: "(string \<times> 'e) list"

text \<open>The error \<open>Execute\<close> returns: the format string's two arguments, the step name and
  the wrapped action error.\<close>

datatype 'e saga_error = StepFailed string 'e

definition NewSaga :: "('w, 'e) Saga" where
  "NewSaga = \<lparr>steps = [], executedSteps = []\<rparr>"

definition AddStep :: "('w, 'e) Saga \<Rightarrow> ('w, 'e) Step \<Rightarrow> ('w, 'e) Saga" where
  "AddStep s step = s\<lparr>steps := steps s @ [step]\<rparr>"

text \<open>
  \<open>compensate\<close>: the loop \<open>for i := len(s.executedSteps) - 1; i >= 0; i--\<close>. The first
  argument is \<open>i + 1\<close>. An index outside \<open>s.steps\<close> panics in Go: the result is \<open>None\<close>.
  A failing compensation is printed and the loop goes on.
\<close>

fun compensate_loop :: "('w, 'e) Saga \<Rightarrow> nat \<Rightarrow> ('w, 'e) run \<Rightarrow> ('w, 'e) run option" where
  "compensate_loop s 0 r = Some r"
| "compensate_loop s (Suc i) r =
     (let stepIndex = executedSteps s ! i in
      if stepIndex < length (steps s) then
        (let step = steps s ! stepIndex;
             (err, w) = Compensate step (world r);
             r1 = r\<lparr>world := w, calls := calls r @ [CompensationCall stepIndex]\<rparr>;
             r2 = (case err of
                     None \<Rightarrow> r1
                   | Some e \<Rightarrow> r1\<lparr>printed := printed r1 @ [(Name step, e)]\<rparr>)
         in compensate_loop s i r2)
      else None)"

definition compensate :: "('w, 'e) Saga \<Rightarrow> ('w, 'e) run \<Rightarrow> ('w, 'e) run option" where
  "compensate s r = compensate_loop s (length (executedSteps s)) r"

text \<open>
  \<open>Execute\<close>: the loop \<open>for i, step := range s.steps\<close>, at index \<open>i\<close> with the steps still
  to visit. The result is the returned error, the saga (its \<open>executedSteps\<close> grown) and
  the run; \<open>None\<close> is a panic inside \<open>compensate\<close>.
\<close>

fun Execute_loop ::
  "nat \<Rightarrow> ('w, 'e) Step list \<Rightarrow> ('w, 'e) Saga \<Rightarrow> ('w, 'e) run
     \<Rightarrow> ('e saga_error option \<times> ('w, 'e) Saga \<times> ('w, 'e) run) option" where
  "Execute_loop i [] s r = Some (None, s, r)"
| "Execute_loop i (step # rest) s r =
     (let (err, w) = Do step (world r);
          r1 = r\<lparr>world := w, calls := calls r @ [ActionCall i]\<rparr>
      in case err of
           Some e \<Rightarrow>
             (case compensate s r1 of
                None \<Rightarrow> None
              | Some r2 \<Rightarrow> Some (Some (StepFailed (Name step) e), s, r2))
         | None \<Rightarrow> Execute_loop (Suc i) rest (s\<lparr>executedSteps := executedSteps s @ [i]\<rparr>) r1)"

definition Execute ::
  "('w, 'e) Saga \<Rightarrow> ('w, 'e) run
     \<Rightarrow> ('e saga_error option \<times> ('w, 'e) Saga \<times> ('w, 'e) run) option" where
  "Execute s r = Execute_loop 0 (steps s) s r"

text \<open>
  Step \<open>k\<close>'s action fails during \<open>Execute\<close>: the actions before it succeed one after the
  other from the starting world, and the action of step \<open>k\<close> returns an error on the world
  they leave.
\<close>

fun actions_succeed :: "('w, 'e) Step list \<Rightarrow> 'w \<Rightarrow> 'w option" where
  "actions_succeed [] w = Some w"
| "actions_succeed (step # rest) w =
     (case Do step w of
        (None, w1) \<Rightarrow> actions_succeed rest w1
      | (Some e, w1) \<Rightarrow> None)"

definition action_fails_at :: "('w, 'e) Step list \<Rightarrow> 'w \<Rightarrow> nat \<Rightarrow> bool" where
  "action_fails_at sts w k =
     (k < length sts \<and>
      (case actions_succeed (take k sts) w of
         None \<Rightarrow> False
       | Some w1 \<Rightarrow> fst (Do (sts ! k) w1) \<noteq> None))"

text \<open>The compensation errors of the steps \<open>is\<close>, run in that order from \<open>w\<close>: what
  \<open>compensate\<close> has to report.\<close>

fun compensation_errors :: "('w, 'e) Step list \<Rightarrow> nat list \<Rightarrow> 'w \<Rightarrow> (string \<times> 'e) list" where
  "compensation_errors sts [] w = []"
| "compensation_errors sts (i # is) w =
     (case Compensate (sts ! i) w of
        (None, w1) \<Rightarrow> compensation_errors sts is w1
      | (Some e, w1) \<Rightarrow> (Name (sts ! i), e) # compensation_errors sts is w1)"

text \<open>The world the compensations of the steps \<open>is\<close> leave, run in that order from \<open>w\<close>.\<close>

fun compensated_world :: "('w, 'e) Step list \<Rightarrow> nat list \<Rightarrow> 'w \<Rightarrow> 'w" where
  "compensated_world sts [] w = w"
| "compensated_world sts (i # is) w = compensated_world sts is (snd (Compensate (sts ! i) w))"

definition fresh_run :: "'w \<Rightarrow> ('w, 'e) run" where
  "fresh_run w = \<lparr>world = w, calls = [], printed = []\<rparr>"

section \<open>Idempotency middleware (internal/middleware/idempotent.go)\<close>

text \<open>
  The coordination store is Redis behind the package \<open>cache\<close>. A key holds a value and
  the expiry it was written with, in seconds. Any single command may fail (the store or
  the network is down at that moment): \<open>faults\<close> says, for each command sent from now on,
  whether it fails; past the end of the list none does. A command that fails returns an
  error and the zero value and leaves the keys as they were. Every command sent and
  every call of the guarded handler is appended to \<open>log\<close>; \<open>app\<close> is whatever the handler
  works on.
\<close>

datatype event =
    StoreExists string
  | StoreSetNX string string nat
  | StoreSet string string nat
  | StoreDel string
  | HandlerCall

datatype store_error = StoreUnavailable

record 'w sys =
  kv :: "string \<rightharpoonup> string \<times> nat"
  faults :: "bool list"
  app :: 'w
  log :: "event list"

text \<open>Sending one command: whether it fails, and the state with that answer used up and
  the command logged.\<close>

definition send :: "event \<Rightarrow> 'w sys \<Rightarrow> bool \<times> 'w sys" where
  "send cmd s =
     (case faults s of
        [] \<Rightarrow> (False, s\<lparr>log := log s @ [cmd]\<rparr>)
      | failed # rest \<Rightarrow> (failed, s\<lparr>faults := rest, log := log s @ [cmd]\<rparr>))"

definition cache_Exists :: "'w sys \<Rightarrow> string \<Rightarrow> (int \<times> store_error option) \<times> 'w sys" where
  "cache_Exists s k =
     (let (failed, s1) = send (StoreExists k) s in
      if failed then ((0, Some StoreUnavailable), s1)
      else ((if kv s k = None then 0 else 1, None), s1))"

definition cache_Set ::
  "'w sys \<Rightarrow> string \<Rightarrow> string \<Rightarrow> nat \<Rightarrow> store_error option \<times> 'w sys" where
  "cache_Set s k val expiration =
     (let (failed, s1) = send (StoreSet k val expiration) s in
      if failed then (Some StoreUnavailable, s1)
      else (None, s1\<lparr>kv := (kv s)(k \<mapsto> (val, expiration))\<rparr>))"

definition cache_Lock ::
  "'w sys \<Rightarrow> string \<Rightarrow> nat \<Rightarrow> (bool \<times> store_error option) \<times> 'w sys" where
  "cache_Lock s k expiration =
     (let (failed, s1) = send (StoreSetNX k ''locked'' expiration) s in
      if failed then ((False, Some StoreUnavailable), s1)
      else if kv s k = None
      then ((True, None), s1\<lparr>kv := (kv s)(k \<mapsto> (''locked'', expiration))\<rparr>)
      else ((False, None), s1))"

definition cache_Unlock :: "'w sys \<Rightarrow> string \<Rightarrow> store_error option \<times> 'w sys" where
  "cache_Unlock s k =
     (let (failed, s1) = send (StoreDel k) s in
      if failed then (Some StoreUnavailable, s1)
      else (None, s1\<lparr>kv := (kv s)(k := None)\<rparr>))"

text \<open>The request as the middleware reads it, and the response it leaves. The three
  JSON error bodies are named by what they say.\<close>

record request =
  Method :: string
  Header :: "string \<rightharpoonup> string"

definition GetHeader :: "request \<Rightarrow> string \<Rightarrow> string" where
  "GetHeader req name = (case Header req name of None \<Rightarrow> [] | Some v \<Rightarrow> v)"

datatype reply = MissingIdempotentKey | AlreadyProcessed | InProgress

record 'w outcome =
  Status :: int
  body :: "reply option"
  aborted :: bool
  sys_of :: "'w sys"

text \<open>\<open>c.Next()\<close>: the guarded handler runs on the application state and writes a status.\<close>

definition Next :: "('w \<Rightarrow> int \<times> 'w) \<Rightarrow> 'w sys \<Rightarrow> int \<times> 'w sys" where
  "Next handler s =
     (let (code, w) = handler (app s)
      in (code, s\<lparr>app := w, log := log s @ [HandlerCall]\<rparr>))"

text \<open>The two store keys of an idempotency key: \<open>fmt.Sprintf("idempotent:%s", key)\<close> and
  \<open>fmt.Sprintf("lock:%s", key)\<close>.\<close>

definition redisKey_of :: "string \<Rightarrow> string" where
  "redisKey_of idempotentKey = ''idempotent:'' @ idempotentKey"

definition lockKey_of :: "string \<Rightarrow> string" where
  "lockKey_of idempotentKey = ''lock:'' @ idempotentKey"

text \<open>The middleware from the point where the lock is held: the handler, the completion
  record on a 2xx status, and the deferred unlock.\<close>

definition holding_lock ::
  "('w \<Rightarrow> int \<times> 'w) \<Rightarrow> string \<Rightarrow> string \<Rightarrow> 'w sys \<Rightarrow> 'w outcome" where
  "holding_lock handler redisKey lockKey s =
     (let (code, s1) = Next handler s;
          s2 = (if 200 \<le> code \<and> code < 300
                then snd (cache_Set s1 redisKey ''1'' (24 * 3600)) else s1);
          s3 = snd (cache_Unlock s2 lockKey)
      in \<lparr>Status = code, body = None, aborted = False, sys_of = s3\<rparr>)"

text \<open>The middleware from the point where the completion record was looked for and not
  found: the lock, and under it \<open>holding_lock\<close>.\<close>

definition from_lock ::
  "('w \<Rightarrow> int \<times> 'w) \<Rightarrow> string \<Rightarrow> 'w sys \<Rightarrow> 'w outcome" where
  "from_lock handler idempotentKey s1 =
     (let redisKey = redisKey_of idempotentKey;
          lockKey = lockKey_of idempotentKey;
          ((locked, err), s2) = cache_Lock s1 lockKey 30 in
      if err \<noteq> None \<or> \<not> locked then
        \<lparr>Status = 429, body = Some InProgress, aborted = True, sys_of = s2\<rparr>
      else holding_lock handler redisKey lockKey s2)"

definition IdempotentMiddleware ::
  "('w \<Rightarrow> int \<times> 'w) \<Rightarrow> request \<Rightarrow> 'w sys \<Rightarrow> 'w outcome" where
  "IdempotentMiddleware handler req s =
     (if Method req = ''GET'' \<or> Method req = ''HEAD'' then
        (let (code, s1) = Next handler s
         in \<lparr>Status = code, body = None, aborted = False, sys_of = s1\<rparr>)
      else
        (let idempotentKey = GetHeader req ''X-Idempotent-Key'' in
         if idempotentKey = [] then
           \<lparr>Status = 400, body = Some MissingIdempotentKey, aborted = True, sys_of = s\<rparr>
         else
           (let redisKey = redisKey_of idempotentKey;
                ((exists, _), s1) = cache_Exists s redisKey in
            if exists > 0 then
              \<lparr>Status = 409, body = Some AlreadyProcessed, aborted = True, sys_of = s1\<rparr>
            else from_lock handler idempotentKey s1)))"

text \<open>What one pass through the middleware appended to the log, and whether the
  handler was called in it.\<close>

definition events_of :: "('w \<Rightarrow> int \<times> 'w) \<Rightarrow> request \<Rightarrow> 'w sys \<Rightarrow> event list" where
  "events_of handler req s =
     drop (length (log s)) (log (sys_of (IdempotentMiddleware handler req s)))"

definition invoked :: "('w \<Rightarrow> int \<times> 'w) \<Rightarrow> request \<Rightarrow> 'w sys \<Rightarrow> bool" where
  "invoked handler req s = (HandlerCall \<in> set (events_of handler req s))"

section \<open>Token bucket (internal/ratelimit/token_bucket.go)\<close>

text \<open>
  The bucket is a Redis hash with the fields \<open>tokens\<close> and \<open>last_time\<close>; a field that is
  not there reads as nil. \<open>expire\<close> is the expiry of the key, in seconds.

  Lua's numbers are IEEE doubles. Every number of the script is an integer: its inputs
  are three \<open>int64\<close> values (capacity, rate, the Unix time in seconds) and what it stored
  before, and it only adds, subtracts, multiplies and takes the minimum. A double with
  an integer value is identified with that integer, and \<open>double x\<close> is the double nearest
  to the integer \<open>x\<close>, a tie going to the even significand of 53 bits: the result of
  \<open>tonumber\<close> on the decimal text of \<open>x\<close>, and of an arithmetic operation whose exact result is
  \<open>x\<close>. Numbers are written to the store with 17 significant digits, which loses nothing.
\<close>

definition double :: "int \<Rightarrow> int" where
  "double x =
     (if \<bar>x\<bar> < 2 ^ 53 then x
      else
        (let e = nat (bitlen \<bar>x\<bar> - 53);
             q = \<bar>x\<bar> div 2 ^ e;
             r = \<bar>x\<bar> mod 2 ^ e
         in sgn x * ((if 2 * r > 2 ^ e \<or> (2 * r = 2 ^ e \<and> odd q) then q + 1 else q) * 2 ^ e)))"

record TokenBucket =
  key :: string
  capacity :: int
  rate :: int

definition NewTokenBucket :: "string \<Rightarrow> int \<Rightarrow> int \<Rightarrow> TokenBucket" where
  "NewTokenBucket k c r = \<lparr>key = k, capacity = c, rate = r\<rparr>"

record bucket =
  tokens :: "int option"
  last_time :: "int option"
  expire :: "nat option"

definition no_bucket :: bucket where
  "no_bucket = \<lparr>tokens = None, last_time = None, expire = None\<rparr>"

definition script :: "int \<Rightarrow> int \<Rightarrow> int \<Rightarrow> bucket \<Rightarrow> int \<times> bucket" where
  "script cap rt nw b =
     (let capacity_n = double cap;
          rate_n = double rt;
          now = double nw;
          tks = (case tokens b of None \<Rightarrow> capacity_n | Some t \<Rightarrow> double t);
          lt = (case last_time b of None \<Rightarrow> now | Some t \<Rightarrow> double t);
          delta = double (now - lt);
          new_tokens = min capacity_n (double (tks + double (delta * rate_n)))
      in if new_tokens \<ge> 1 then
           (1, \<lparr>tokens = Some (double (new_tokens - 1)), last_time = Some now,
               expire = Some 3600\<rparr>)
         else
           (0, b\<lparr>tokens := Some new_tokens, last_time := Some now\<rparr>))"

record redis =
  hashes :: "string \<Rightarrow> bucket"
  reachable :: bool

definition Allow ::
  "TokenBucket \<Rightarrow> int \<Rightarrow> redis \<Rightarrow> (bool \<times> store_error option) \<times> redis" where
  "Allow tb now r =
     (if reachable r then
        (let (result, b) = script (capacity tb) (rate tb) now (hashes r (key tb))
         in ((result = 1, None), r\<lparr>hashes := (hashes r)(key tb := b)\<rparr>))
      else ((False, Some StoreUnavailable), r))"

text \<open>A sequence of \<open>Allow\<close> calls, one at each of the given clock readings.\<close>

fun Allow_seq :: "TokenBucket \<Rightarrow> int list \<Rightarrow> redis \<Rightarrow> redis" where
  "Allow_seq tb [] r = r"
| "Allow_seq tb (now # nows) r = Allow_seq tb nows (snd (Allow tb now r))"

section \<open>Circuit breaker (internal/circuitbreaker/breaker.go)\<close>

datatype State = StateClosed | StateOpen | StateHalfOpen

record CircuitBreaker =
  state :: State
  failureCount :: int
  successCount :: int
  failureThreshold :: int
  timeout :: int
  openTime :: int


definition NewCircuitBreaker :: "int \<Rightarrow> int \<Rightarrow> CircuitBreaker" where
  "NewCircuitBreaker threshold tmo =
     \<lparr>state = StateClosed, failureCount = 0, successCount = 0,
      failureThreshold = threshold, timeout = tmo, openTime = 0\<rparr>"

text \<open>\<open>allow\<close> at clock reading \<open>now\<close>: \<open>time.Since(cb.openTime)\<close> is \<open>now - openTime\<close>.
  Times and the timeout are in one unit (nanoseconds in Go). The \<open>default\<close> branch of the
  switch has no state to apply to.\<close>

definition allow :: "int \<Rightarrow> CircuitBreaker \<Rightarrow> bool \<times> CircuitBreaker" where
  "allow now cb =
     (case state cb of
        StateClosed \<Rightarrow> (True, cb)
      | StateOpen \<Rightarrow>
          if now - openTime cb > timeout cb
          then (True, cb\<lparr>state := StateHalfOpen, successCount := 0\<rparr>)
          else (False, cb)
      | StateHalfOpen \<Rightarrow> (True, cb))"

text \<open>\<open>record\<close> (named \<open>record_result\<close> here), at the clock reading \<open>now\<close> of its
  \<open>time.Now()\<close>. The counters are Go \<open>int\<close>s, far from their range in any run.\<close>

definition record_result :: "int \<Rightarrow> 'e option \<Rightarrow> CircuitBreaker \<Rightarrow> CircuitBreaker" where
  "record_result now err cb =
     (if err \<noteq> None then
        (let cb1 = cb\<lparr>failureCount := failureCount cb + 1, successCount := 0\<rparr> in
         if state cb1 = StateClosed \<and> failureCount cb1 \<ge> failureThreshold cb1
         then cb1\<lparr>state := StateOpen, openTime := now\<rparr>
         else if state cb1 = StateHalfOpen
         then cb1\<lparr>state := StateOpen, openTime := now\<rparr>
         else cb1)
      else
        (let cb1 = cb\<lparr>successCount := successCount cb + 1, failureCount := 0\<rparr> in
         if state cb1 = StateHalfOpen \<and> successCount cb1 \<ge> 2
         then cb1\<lparr>state := StateClosed\<rparr>
         else cb1))"




section \<open>Example inputs\<close>

text \<open>The transfer of the usage example, on one balance: the debit succeeds, the credit
  fails. In \<open>transfer_refund_fails\<close> the debit's compensation fails as well.\<close>

definition debit :: "(int, string) Step" where
  "debit = \<lparr>Name = ''debit'', Do = (\<lambda>w. (None, w - 100)),
            Compensate = (\<lambda>w. (None, w + 100))\<rparr>"

definition debit_no_refund :: "(int, string) Step" where
  "debit_no_refund = \<lparr>Name = ''debit'', Do = (\<lambda>w. (None, w - 100)),
                      Compensate = (\<lambda>w. (Some ''refund failed'', w))\<rparr>"

definition credit :: "(int, string) Step" where
  "credit = \<lparr>Name = ''credit'', Do = (\<lambda>w. (Some ''credit failed'', w)),
             Compensate = (\<lambda>w. (None, w))\<rparr>"

definition transfer :: "(int, string) Saga" where
  "transfer = AddStep (AddStep NewSaga debit) credit"

definition transfer_refund_fails :: "(int, string) Saga" where
  "transfer_refund_fails = AddStep (AddStep NewSaga debit_no_refund) credit"

text \<open>Requests and stores for the middleware: a POST with the key \<open>k1\<close>, a POST with no
  key, a reachable empty store, and a store in which the completion record of \<open>k1\<close> is
  there while the lock of \<open>k1\<close> is held.\<close>

definition post_k1 :: request where
  "post_k1 = \<lparr>Method = ''POST'', Header = [''X-Idempotent-Key'' \<mapsto> ''k1'']\<rparr>"

definition post_no_key :: request where
  "post_no_key = \<lparr>Method = ''POST'', Header = Map.empty\<rparr>"

definition empty_sys :: "int sys" where
  "empty_sys = \<lparr>kv = Map.empty, faults = [], app = 0, log = []\<rparr>"

definition completed_and_locked :: "int sys" where
  "completed_and_locked =
     \<lparr>kv = [redisKey_of ''k1'' \<mapsto> (''1'', 86400), lockKey_of ''k1'' \<mapsto> (''locked'', 30)],
      faults = [], app = 0, log = []\<rparr>"

definition handler_ok :: "int \<Rightarrow> int \<times> int" where
  "handler_ok w = (200, w + 1)"

definition handler_fails :: "int \<Rightarrow> int \<times> int" where
  "handler_fails w = (500, w)"

text \<open>The same store when it fails the third command it gets (after \<open>EXISTS\<close> and \<open>SETNX\<close>,
  the \<open>SET\<close> of the completion record), and when it fails the next command it gets.\<close>

definition third_command_fails :: "int sys" where
  "third_command_fails = empty_sys\<lparr>faults := [False, False, True]\<rparr>"

definition next_command_fails :: "int sys \<Rightarrow> int sys" where
  "next_command_fails s = s\<lparr>faults := [True]\<rparr>"

text \<open>Two passes for the key \<open>k1\<close> at once: the first has looked for the completion record
  on the empty store (\<open>first_has_checked\<close>), then the second runs from start to end
  (\<open>second_has_finished\<close>), and the first goes on from its lock (\<open>first_goes_on\<close>).\<close>

definition first_has_checked :: "int sys" where
  "first_has_checked = snd (cache_Exists empty_sys (redisKey_of ''k1''))"

definition second_has_finished :: "int sys" where
  "second_has_finished = sys_of (IdempotentMiddleware handler_ok post_k1 first_has_checked)"

definition first_goes_on :: "int outcome" where
  "first_goes_on = from_lock handler_ok ''k1'' second_has_finished"

text \<open>The state a pass for \<open>k1\<close> with a succeeding handler leaves: on the empty store when
  no command fails, and when the \<open>SET\<close> of the completion record fails.\<close>

definition after_pass :: "int sys" where
  "after_pass = sys_of (IdempotentMiddleware handler_ok post_k1 empty_sys)"

definition after_pass_set_failed :: "int sys" where
  "after_pass_set_failed = sys_of (IdempotentMiddleware handler_ok post_k1 third_command_fails)"

text \<open>A bucket of capacity 10 refilled at one token per second, a store with no bucket in
  it, and one where the bucket was emptied at second 100.\<close>

definition api_bucket :: TokenBucket where
  "api_bucket = NewTokenBucket ''api'' 10 1"

definition fresh_redis :: redis where
  "fresh_redis = \<lparr>hashes = (\<lambda>k. no_bucket), reachable = True\<rparr>"

definition drained_redis :: redis where
  "drained_redis =
     \<lparr>hashes = (\<lambda>k. no_bucket)
        (''api'' := \<lparr>tokens = Some 0, last_time = Some 100, expire = Some 3600\<rparr>),
      reachable = True\<rparr>"

text \<open>Past 53 bits: a bucket of capacity \<open>2 ^ 53 + 2\<close> holding \<open>2 ^ 53\<close> tokens since
  second 100, and a bucket of capacity \<open>2 ^ 53 + 1\<close>.\<close>

definition wide_bucket :: TokenBucket where
  "wide_bucket = NewTokenBucket ''api'' 9007199254740994 1"

definition wide_redis :: redis where
  "wide_redis =
     \<lparr>hashes = (\<lambda>k. no_bucket)
        (''api'' := \<lparr>tokens = Some 9007199254740992, last_time = Some 100, expire = Some 3600\<rparr>),
      reachable = True\<rparr>"

definition odd_bucket :: TokenBucket where
  "odd_bucket = NewTokenBucket ''api'' 9007199254740993 1"

text \<open>An integer that a double holds exactly whatever its value: one of at most 53 bits.\<close>

definition exact :: "int \<Rightarrow> bool" where
  "exact x = (\<bar>x\<bar> \<le> 2 ^ 53)"



definition open_breaker :: CircuitBreaker where
  "open_breaker =
     \<lparr>state = StateOpen, failureCount = 3, successCount = 0,
      failureThreshold = 3, timeout = 60, openTime = 1000\<rparr>"

definition half_open_breaker :: CircuitBreaker where
  "half_open_breaker =
     \<lparr>state = StateHalfOpen, failureCount = 3, successCount = 0,
      failureThreshold = 3, timeout = 60, openTime = 1000\<rparr>"




section \<open>Properties of the saga coordinator\<close>

lemma compensate_loop_runs:
  assumes "n \<le> length (executedSteps s)"
    and "\<forall>j<n. executedSteps s ! j < length (steps s)"
  shows "\<exists>r1. compensate_loop s n r = Some r1
           \<and> calls r1 = calls r @ map CompensationCall (rev (take n (executedSteps s)))
           \<and> printed r1 = printed r @ compensation_errors (steps s) (rev (take n (executedSteps s))) (world r)
           \<and> world r1 = compensated_world (steps s) (rev (take n (executedSteps s))) (world r)"
  using assms
proof (induction n arbitrary: r)
  case 0
  then show ?case by simp
next
  case (Suc n)
  let ?ix = "executedSteps s ! n"
  let ?step = "steps s ! ?ix"
  obtain err w where c: "Compensate ?step (world r) = (err, w)" by (cases "Compensate ?step (world r)")
  have valid: "?ix < length (steps s)" using Suc.prems by simp
  have tk: "rev (take (Suc n) (executedSteps s)) = ?ix # rev (take n (executedSteps s))"
    using Suc.prems by (simp add: take_Suc_conv_app_nth)
  let ?r1 = "r\<lparr>world := w, calls := calls r @ [CompensationCall ?ix]\<rparr>"
  let ?r2 = "case err of None \<Rightarrow> ?r1 | Some e \<Rightarrow> ?r1\<lparr>printed := printed ?r1 @ [(Name ?step, e)]\<rparr>"
  have step: "compensate_loop s (Suc n) r = compensate_loop s n ?r2"
    using valid c by (simp add: Let_def)
  have pre: "n \<le> length (executedSteps s)" "\<forall>j<n. executedSteps s ! j < length (steps s)"
    using Suc.prems by auto
  from Suc.IH[OF pre, of ?r2] obtain r3 where
    r3: "compensate_loop s n ?r2 = Some r3"
        "calls r3 = calls ?r2 @ map CompensationCall (rev (take n (executedSteps s)))"
        "printed r3 = printed ?r2 @ compensation_errors (steps s) (rev (take n (executedSteps s))) (world ?r2)"
        "world r3 = compensated_world (steps s) (rev (take n (executedSteps s))) (world ?r2)"
    by blast
  show ?case
    using r3 step c tk by (cases err) simp_all
qed

lemma Execute_loop_fails:
  assumes "actions_succeed (take k rest) (world r) = Some w1"
    and "k < length rest"
    and "Do (rest ! k) w1 = (Some e, w2)"
  shows "Execute_loop i rest s r =
           (case compensate (s\<lparr>executedSteps := executedSteps s @ [i..<i + k]\<rparr>)
                   (r\<lparr>world := w2, calls := calls r @ map ActionCall [i..<Suc (i + k)]\<rparr>) of
              None \<Rightarrow> None
            | Some r2 \<Rightarrow> Some (Some (StepFailed (Name (rest ! k)) e),
                              s\<lparr>executedSteps := executedSteps s @ [i..<i + k]\<rparr>, r2))"
  using assms
proof (induction rest arbitrary: i s r k)
  case Nil
  then show ?case by simp
next
  case (Cons step rest)
  show ?case
  proof (cases k)
    case 0
    with Cons.prems show ?thesis by (simp split: option.split)
  next
    case (Suc k')
    obtain err w where d: "Do step (world r) = (err, w)" by (cases "Do step (world r)")
    with Cons.prems Suc have err: "err = None" and
      ok: "actions_succeed (take k' rest) w = Some w1" 
      by (auto split: option.splits)
    have lt: "k' < length rest" and dk: "Do (rest ! k') w1 = (Some e, w2)"
      using Cons.prems Suc by auto
    let ?s = "s\<lparr>executedSteps := executedSteps s @ [i]\<rparr>"
    let ?r = "r\<lparr>world := w, calls := calls r @ [ActionCall i]\<rparr>"
    have ok': "actions_succeed (take k' rest) (world ?r) = Some w1" using ok by simp
    have u1: "[i..<i + k] = i # [Suc i..<Suc i + k']" using Suc by (simp add: upt_conv_Cons)
    have u2: "[i..<Suc (i + k)] = i # [Suc i..<Suc (Suc i + k')]" using Suc by (simp add: upt_conv_Cons)
    have "Execute_loop i (step # rest) s r = Execute_loop (Suc i) rest ?s ?r"
      using d err by simp
    also note Cons.IH[OF ok' lt dk, of "Suc i" ?s]
    finally show ?thesis using Suc u1 u2 by (simp split: option.split)
  qed
qed

lemma Execute_fails_run:
  fixes s :: "('w, 'e) Saga"
  assumes fresh: "executedSteps s = []"
    and ok: "actions_succeed (take k (steps s)) w = Some w1"
    and lt: "k < length (steps s)"
    and dk: "Do (steps s ! k) w1 = (Some e, w2)"
  shows "\<exists>s1 r1. Execute s (fresh_run w) = Some (Some (StepFailed (Name (steps s ! k)) e), s1, r1)
           \<and> calls r1 = map ActionCall [0..<Suc k] @ map CompensationCall (rev [0..<k])
           \<and> printed r1 = compensation_errors (steps s) (rev [0..<k]) w2
           \<and> world r1 = compensated_world (steps s) (rev [0..<k]) w2"
proof -
  let ?s = "s\<lparr>executedSteps := executedSteps s @ [0..<0 + k]\<rparr>"
  let ?f = "fresh_run w :: ('w, 'e) run"
  let ?r = "?f\<lparr>world := w2, calls := calls ?f @ map ActionCall [0..<Suc (0 + k)]\<rparr>"
  have ok': "actions_succeed (take k (steps s)) (world ?f) = Some w1"
    using ok by (simp add: fresh_run_def)
  have ex: "executedSteps ?s = [0..<k]" using fresh by simp
  have n: "length (executedSteps ?s) \<le> length (executedSteps ?s)" by simp
  have v: "\<forall>j<length (executedSteps ?s). executedSteps ?s ! j < length (steps ?s)"
    using lt ex by simp
  from compensate_loop_runs[OF n v, of ?r] obtain r1 where
    r1: "compensate ?s ?r = Some r1"
        "calls r1 = calls ?r @ map CompensationCall (rev (executedSteps ?s))"
        "printed r1 = printed ?r @ compensation_errors (steps ?s) (rev (executedSteps ?s)) (world ?r)"
        "world r1 = compensated_world (steps ?s) (rev (executedSteps ?s)) (world ?r)"
    unfolding compensate_def by auto
  have "Execute s (fresh_run w) = Some (Some (StepFailed (Name (steps s ! k)) e), ?s, r1)"
    unfolding Execute_def using Execute_loop_fails[OF ok' lt dk, of 0 s] r1(1) by simp
  moreover have "calls r1 = map ActionCall [0..<Suc k] @ map CompensationCall (rev [0..<k])"
    using r1(2) ex by (simp add: fresh_run_def)
  moreover have "printed r1 = compensation_errors (steps s) (rev [0..<k]) w2"
    using r1(3) ex by (simp add: fresh_run_def)
  moreover have "world r1 = compensated_world (steps s) (rev [0..<k]) w2"
    using r1(4) ex by simp
  ultimately show ?thesis by blast
qed

lemma action_fails_atD:
  assumes "action_fails_at sts w k"
  obtains w1 e w2 where "k < length sts" "actions_succeed (take k sts) w = Some w1"
    "Do (sts ! k) w1 = (Some e, w2)"
proof -
  from assms obtain w1 where a: "k < length sts" "actions_succeed (take k sts) w = Some w1"
    "fst (Do (sts ! k) w1) \<noteq> None"
    by (auto simp: action_fails_at_def split: option.splits)
  then obtain e w2 where "Do (sts ! k) w1 = (Some e, w2)"
    by (cases "Do (sts ! k) w1") auto
  with a that show ?thesis by blast
qed

lemma count_list_upt: "count_list [0..<n] i = (if i < n then 1 else 0)"
  by (induction n) auto

lemma count_ActionCall:
  "count_list (map ActionCall [0..<n] @ map CompensationCall xs) (ActionCall i) = (if i < n then 1 else 0)"
proof -
  have "count_list (map CompensationCall xs) (ActionCall i) = 0"
    by (simp add: count_list_0_iff image_iff)
  moreover have "count_list (map ActionCall [0..<n]) (ActionCall i) = (if i < n then 1 else 0)"
    by (simp add: count_list_map_conv inj_def count_list_upt flip: rev_map)
  ultimately show ?thesis by simp
qed

lemma count_CompensationCall:
  "count_list (map ActionCall xs @ map CompensationCall (rev [0..<n])) (CompensationCall i) = (if i < n then 1 else 0)"
proof -
  have "count_list (map ActionCall xs) (CompensationCall i) = 0"
    by (simp add: count_list_0_iff image_iff)
  moreover have "count_list (map CompensationCall (rev [0..<n])) (CompensationCall i) = (if i < n then 1 else 0)"
    by (simp add: count_list_map_conv inj_def count_list_upt flip: rev_map)
  ultimately show ?thesis by simp
qed

text \<open>
  C1. A saga as \<open>NewSaga\<close> and \<open>AddStep\<close> build it (nothing executed yet) in which the
  action of step \<open>k\<close> fails: the actions of steps \<open>0..k-1\<close> have run one after the other
  from the starting world and left \<open>w1\<close>, the action of step \<open>k\<close> has run on \<open>w1\<close>, failed
  and left \<open>w2\<close>; \<open>Execute\<close> returns an error, and the world it leaves is the one the
  compensations of steps \<open>k-1..0\<close>, run in that (reverse) order from \<open>w2\<close>, leave. The
  calls made are the actions of steps \<open>0..k\<close> in order, then the compensations of steps
  \<open>k-1..0\<close>: each action up to \<open>k\<close> exactly once and no later one, each compensation below
  \<open>k\<close> exactly once and that of step \<open>k\<close> (and later) never.
\<close>

theorem Execute_failure_trace:
  assumes "executedSteps s = []" and "action_fails_at (steps s) w k"
  shows "\<exists>w1 e w2 err s1 r1.
           actions_succeed (take k (steps s)) w = Some w1
         \<and> Do (steps s ! k) w1 = (Some e, w2)
         \<and> Execute s (fresh_run w) = Some (Some err, s1, r1)
         \<and> world r1 = compensated_world (steps s) (rev [0..<k]) w2
         \<and> calls r1 = map ActionCall [0..<Suc k] @ map CompensationCall (rev [0..<k])
         \<and> (\<forall>i. count_list (calls r1) (ActionCall i) = (if i \<le> k then 1 else 0))
         \<and> (\<forall>i. count_list (calls r1) (CompensationCall i) = (if i < k then 1 else 0))"
proof -
  from assms(2) obtain w1 e w2 where a: "k < length (steps s)"
    "actions_succeed (take k (steps s)) w = Some w1" "Do (steps s ! k) w1 = (Some e, w2)"
    by (rule action_fails_atD)
  from Execute_fails_run[OF assms(1) a(2) a(1) a(3)] obtain s1 r1 where
    r: "Execute s (fresh_run w) = Some (Some (StepFailed (Name (steps s ! k)) e), s1, r1)"
       "calls r1 = map ActionCall [0..<Suc k] @ map CompensationCall (rev [0..<k])"
       "world r1 = compensated_world (steps s) (rev [0..<k]) w2"
    by blast
  have c1: "\<forall>i. count_list (calls r1) (ActionCall i) = (if i \<le> k then 1 else 0)"
    unfolding r(2) count_ActionCall by (simp add: less_Suc_eq_le)
  have c2: "\<forall>i. count_list (calls r1) (CompensationCall i) = (if i < k then 1 else 0)"
    unfolding r(2) count_CompensationCall by simp
  show ?thesis using a(2,3) r c1 c2 by blast
qed

theorem Execute_failure_trace_witness:
  "executedSteps transfer = [] \<and> action_fails_at (steps transfer) 500 1
   \<and> actions_succeed (take 1 (steps transfer)) 500 = Some 400
   \<and> Do (steps transfer ! 1) 400 = (Some ''credit failed'', 400)
   \<and> compensated_world (steps transfer) (rev [0..<1]) 400 = 500
   \<and> (\<exists>err s1 r1. Execute transfer (fresh_run 500) = Some (Some err, s1, r1)
         \<and> world r1 = 500
         \<and> calls r1 = [ActionCall 0, ActionCall 1, CompensationCall 0])"
proof -
  have a: "executedSteps transfer = []"
    by (simp add: transfer_def AddStep_def NewSaga_def)
  have b: "action_fails_at (steps transfer) 500 1"
    by (simp add: action_fails_at_def transfer_def AddStep_def NewSaga_def debit_def credit_def)
  have c: "actions_succeed (take 1 (steps transfer)) 500 = Some 400"
    "Do (steps transfer ! 1) 400 = (Some ''credit failed'', 400)"
    "compensated_world (steps transfer) (rev [0..<1]) 400 = 500"
    by (simp_all add: transfer_def AddStep_def NewSaga_def debit_def credit_def)
  from Execute_failure_trace[OF a b] obtain w1 e w2 err s1 r1 where
    r: "actions_succeed (take 1 (steps transfer)) 500 = Some w1"
       "Do (steps transfer ! 1) w1 = (Some e, w2)"
       "Execute transfer (fresh_run 500) = Some (Some err, s1, r1)"
       "world r1 = compensated_world (steps transfer) (rev [0..<1]) w2"
       "calls r1 = map ActionCall [0..<Suc 1] @ map CompensationCall (rev [0..<1])"
    by blast
  from r(1) c(1) have w1: "w1 = 400" by simp
  from r(2) c(2) w1 have w2: "w2 = 400" by simp
  have "world r1 = 500" using r(4) c(3) w2 by simp
  moreover have "calls r1 = [ActionCall 0, ActionCall 1, CompensationCall 0]"
    using r(5) by (simp add: upt_rec)
  ultimately show ?thesis using a b c r(3) by blast
qed

text \<open>
  C5, as the code has it. A saga with nothing executed yet in which the action of step
  \<open>k\<close> fails with \<open>e\<close>: the error \<open>Execute\<close> returns holds the name of step \<open>k\<close> and \<open>e\<close>,
  and nothing of the compensations. The compensations of steps \<open>k-1..0\<close> are all called,
  whichever of them fail, and each failure is printed, in that order, with its step name.
\<close>

theorem Execute_failure_result:
  assumes "executedSteps s = []" and "action_fails_at (steps s) w k"
  shows "\<exists>w1 e w2 s1 r1.
           actions_succeed (take k (steps s)) w = Some w1
         \<and> Do (steps s ! k) w1 = (Some e, w2)
         \<and> Execute s (fresh_run w) = Some (Some (StepFailed (Name (steps s ! k)) e), s1, r1)
         \<and> calls r1 = map ActionCall [0..<Suc k] @ map CompensationCall (rev [0..<k])
         \<and> printed r1 = compensation_errors (steps s) (rev [0..<k]) w2"
proof -
  from assms(2) obtain w1 e w2 where a: "k < length (steps s)"
    "actions_succeed (take k (steps s)) w = Some w1" "Do (steps s ! k) w1 = (Some e, w2)"
    by (rule action_fails_atD)
  from Execute_fails_run[OF assms(1) a(2) a(1) a(3)] a(2) a(3)
  show ?thesis by blast
qed

theorem Execute_failure_result_witness:
  "executedSteps transfer_refund_fails = []
   \<and> action_fails_at (steps transfer_refund_fails) 500 1
   \<and> (\<exists>w1 e w2 s1 r1.
           actions_succeed (take 1 (steps transfer_refund_fails)) 500 = Some w1
         \<and> Do (steps transfer_refund_fails ! 1) w1 = (Some e, w2)
         \<and> Execute transfer_refund_fails (fresh_run 500)
             = Some (Some (StepFailed (Name (steps transfer_refund_fails ! 1)) e), s1, r1)
         \<and> calls r1 = map ActionCall [0..<Suc 1] @ map CompensationCall (rev [0..<1])
         \<and> printed r1 = compensation_errors (steps transfer_refund_fails) (rev [0..<1]) w2)"
proof -
  have a: "executedSteps transfer_refund_fails = []"
    by (simp add: transfer_refund_fails_def AddStep_def NewSaga_def)
  have b: "action_fails_at (steps transfer_refund_fails) 500 1"
    by (simp add: action_fails_at_def transfer_refund_fails_def AddStep_def NewSaga_def
        debit_no_refund_def credit_def)
  show ?thesis using a b Execute_failure_result[OF a b] by blast
qed

lemma Execute_transfer_refund_fails:
  "Execute transfer_refund_fails (fresh_run 500) =
     Some (Some (StepFailed ''credit'' ''credit failed''),
           \<lparr>steps = [debit_no_refund, credit], executedSteps = [0]\<rparr>,
           \<lparr>world = 400, calls = [ActionCall 0, ActionCall 1, CompensationCall 0],
            printed = [(''debit'', ''refund failed'')]\<rparr>)"
  by (simp add: Execute_def transfer_refund_fails_def AddStep_def NewSaga_def
      debit_no_refund_def credit_def fresh_run_def compensate_def)

lemma Execute_transfer:
  "Execute transfer (fresh_run 500) =
     Some (Some (StepFailed ''credit'' ''credit failed''),
           \<lparr>steps = [debit, credit], executedSteps = [0]\<rparr>,
           \<lparr>world = 500, calls = [ActionCall 0, ActionCall 1, CompensationCall 0],
            printed = []\<rparr>)"
  by (simp add: Execute_def transfer_def AddStep_def NewSaga_def
      debit_def credit_def fresh_run_def compensate_def)

text \<open>
  The claim fails here: the debit's compensation fails with \<open>''refund failed''\<close>, and the
  error returned is the one returned when no compensation fails. The failure is only in
  what was printed.
\<close>

theorem Execute_result_without_compensation_errors:
  "map_option fst (Execute transfer_refund_fails (fresh_run 500))
     = Some (Some (StepFailed ''credit'' ''credit failed''))
   \<and> map_option fst (Execute transfer (fresh_run 500))
     = Some (Some (StepFailed ''credit'' ''credit failed''))
   \<and> map_option (printed \<circ> snd \<circ> snd) (Execute transfer_refund_fails (fresh_run 500))
     = Some [(''debit'', ''refund failed'')]
   \<and> map_option (printed \<circ> snd \<circ> snd) (Execute transfer (fresh_run 500)) = Some []"
  by (simp add: Execute_transfer_refund_fails Execute_transfer)

section \<open>Properties of the idempotency middleware\<close>

lemma redisKey_neq_lockKey: "redisKey_of k \<noteq> lockKey_of k1"
  by (simp add: redisKey_of_def lockKey_of_def)

lemma send_no_faults: "faults s = [] \<Longrightarrow> send cmd s = (False, s\<lparr>log := log s @ [cmd]\<rparr>)"
  by (simp add: send_def)

lemma holding_lock_no_faults:
  assumes "faults s = []" and "h (app s) = (code, w)" and "rk \<noteq> lk"
  shows "holding_lock h rk lk s =
           \<lparr>Status = code, body = None, aborted = False,
            sys_of = s\<lparr>app := w,
                      log := log s @ [HandlerCall]
                               @ (if 200 \<le> code \<and> code < 300 then [StoreSet rk ''1'' 86400] else [])
                               @ [StoreDel lk],
                      kv := (if 200 \<le> code \<and> code < 300
                             then (kv s)(rk \<mapsto> (''1'', 86400)) else kv s)(lk := None)\<rparr>\<rparr>"
  using assms
  by (simp add: holding_lock_def Next_def cache_Set_def cache_Unlock_def send_def Let_def)

lemma middleware_found:
  assumes "Method req \<noteq> ''GET''" and "Method req \<noteq> ''HEAD''"
    and "GetHeader req ''X-Idempotent-Key'' = k" and "k \<noteq> []"
    and "faults s = []" and "kv s (redisKey_of k) \<noteq> None"
  shows "IdempotentMiddleware h req s =
           \<lparr>Status = 409, body = Some AlreadyProcessed, aborted = True,
            sys_of = s\<lparr>log := log s @ [StoreExists (redisKey_of k)]\<rparr>\<rparr>"
  using assms by (auto simp add: IdempotentMiddleware_def cache_Exists_def send_def Let_def)

lemma middleware_no_lock:
  assumes "Method req \<noteq> ''GET''" and "Method req \<noteq> ''HEAD''"
    and "GetHeader req ''X-Idempotent-Key'' = k" and "k \<noteq> []"
    and "faults s = []" and "kv s (redisKey_of k) = None" and "kv s (lockKey_of k) \<noteq> None"
  shows "IdempotentMiddleware h req s =
           \<lparr>Status = 429, body = Some InProgress, aborted = True,
            sys_of = s\<lparr>log := log s @ [StoreExists (redisKey_of k),
                                        StoreSetNX (lockKey_of k) ''locked'' 30]\<rparr>\<rparr>"
  using assms
  by (auto simp add: IdempotentMiddleware_def from_lock_def cache_Exists_def cache_Lock_def
      send_def Let_def)

lemma middleware_locked:
  assumes "Method req \<noteq> ''GET''" and "Method req \<noteq> ''HEAD''"
    and "GetHeader req ''X-Idempotent-Key'' = k" and "k \<noteq> []"
    and "faults s = []" and "kv s (redisKey_of k) = None" and "kv s (lockKey_of k) = None"
  shows "IdempotentMiddleware h req s =
           holding_lock h (redisKey_of k) (lockKey_of k)
             (s\<lparr>log := log s @ [StoreExists (redisKey_of k),
                                 StoreSetNX (lockKey_of k) ''locked'' 30],
                kv := (kv s)(lockKey_of k \<mapsto> (''locked'', 30))\<rparr>)"
  using assms
  by (simp add: IdempotentMiddleware_def from_lock_def cache_Exists_def cache_Lock_def
      send_def Let_def)

lemma middleware_runs:
  assumes "Method req \<noteq> ''GET''" and "Method req \<noteq> ''HEAD''"
    and "GetHeader req ''X-Idempotent-Key'' = k" and "k \<noteq> []"
    and "faults s = []" and "kv s (redisKey_of k) = None" and "kv s (lockKey_of k) = None"
    and "h (app s) = (code, w)"
  shows "IdempotentMiddleware h req s =
           \<lparr>Status = code, body = None, aborted = False,
            sys_of = s\<lparr>app := w,
                      log := log s @ [StoreExists (redisKey_of k),
                                      StoreSetNX (lockKey_of k) ''locked'' 30, HandlerCall]
                               @ (if 200 \<le> code \<and> code < 300
                                  then [StoreSet (redisKey_of k) ''1'' 86400] else [])
                               @ [StoreDel (lockKey_of k)],
                      kv := (if 200 \<le> code \<and> code < 300
                             then (kv s)(redisKey_of k \<mapsto> (''1'', 86400)) else kv s)\<rparr>\<rparr>"
proof -
  let ?s = "s\<lparr>log := log s @ [StoreExists (redisKey_of k),
                                 StoreSetNX (lockKey_of k) ''locked'' 30],
                kv := (kv s)(lockKey_of k \<mapsto> (''locked'', 30))\<rparr>"
  have ne: "redisKey_of k \<noteq> lockKey_of k" by (rule redisKey_neq_lockKey)
  have "IdempotentMiddleware h req s = holding_lock h (redisKey_of k) (lockKey_of k) ?s"
    using assms(1-7) by (rule middleware_locked)
  also have "\<dots> = \<lparr>Status = code, body = None, aborted = False,
            sys_of = ?s\<lparr>app := w,
                      log := log ?s @ [HandlerCall]
                               @ (if 200 \<le> code \<and> code < 300 then [StoreSet (redisKey_of k) ''1'' 86400] else [])
                               @ [StoreDel (lockKey_of k)],
                      kv := (if 200 \<le> code \<and> code < 300
                             then (kv ?s)(redisKey_of k \<mapsto> (''1'', 86400)) else kv ?s)(lockKey_of k := None)\<rparr>\<rparr>"
    by (rule holding_lock_no_faults) (use assms ne in simp_all)
  finally show ?thesis using assms(7) ne by (auto simp: fun_eq_iff)
qed

lemma events_of_no_faults:
  assumes "Method req \<noteq> ''GET''" and "Method req \<noteq> ''HEAD''"
    and "GetHeader req ''X-Idempotent-Key'' = k" and "k \<noteq> []" and "faults s = []"
  shows "events_of h req s =
           (if kv s (redisKey_of k) \<noteq> None then [StoreExists (redisKey_of k)]
            else if kv s (lockKey_of k) \<noteq> None
            then [StoreExists (redisKey_of k), StoreSetNX (lockKey_of k) ''locked'' 30]
            else [StoreExists (redisKey_of k), StoreSetNX (lockKey_of k) ''locked'' 30,
                  HandlerCall]
                 @ (if 200 \<le> fst (h (app s)) \<and> fst (h (app s)) < 300
                    then [StoreSet (redisKey_of k) ''1'' 86400] else [])
                 @ [StoreDel (lockKey_of k)])"
proof -
  consider (found) "kv s (redisKey_of k) \<noteq> None"
    | (nolock) "kv s (redisKey_of k) = None" "kv s (lockKey_of k) \<noteq> None"
    | (run) "kv s (redisKey_of k) = None" "kv s (lockKey_of k) = None"
    by (cases "kv s (redisKey_of k) = None"; cases "kv s (lockKey_of k) = None")
       (simp_all del: not_None_eq)
  then show ?thesis
  proof cases
    case found
    show ?thesis
      unfolding events_of_def middleware_found[OF assms found] using found by simp
  next
    case nolock
    show ?thesis
      unfolding events_of_def middleware_no_lock[OF assms nolock] using nolock by simp
  next
    case run
    obtain code w where hw: "h (app s) = (code, w)" by (cases "h (app s)")
    show ?thesis
      unfolding events_of_def middleware_runs[where h = h and s = s, OF assms run hw]
      using run hw by simp
  qed
qed

lemma invoked_no_faults:
  assumes "Method req \<noteq> ''GET''" and "Method req \<noteq> ''HEAD''"
    and "GetHeader req ''X-Idempotent-Key'' = k" and "k \<noteq> []" and "faults s = []"
  shows "invoked h req s \<longleftrightarrow> kv s (redisKey_of k) = None \<and> kv s (lockKey_of k) = None"
  unfolding invoked_def events_of_no_faults[OF assms] by (auto simp del: not_None_eq)

text \<open>
  C10. A request whose method is neither GET nor HEAD and whose \<open>X-Idempotent-Key\<close>
  header is empty (or absent) is answered with status 400 and aborted. The handler is not
  called and no command is sent to the store: the system state, its log included, is the
  one the middleware was given.
\<close>

theorem missing_key_rejected:
  assumes "Method req \<noteq> ''GET''" and "Method req \<noteq> ''HEAD''"
    and "GetHeader req ''X-Idempotent-Key'' = []"
  shows "IdempotentMiddleware h req s =
           \<lparr>Status = 400, body = Some MissingIdempotentKey, aborted = True, sys_of = s\<rparr>
         \<and> events_of h req s = [] \<and> \<not> invoked h req s"
  using assms by (simp add: invoked_def events_of_def IdempotentMiddleware_def)

theorem missing_key_rejected_witness:
  "Method post_no_key \<noteq> ''GET'' \<and> Method post_no_key \<noteq> ''HEAD''
   \<and> GetHeader post_no_key ''X-Idempotent-Key'' = []
   \<and> IdempotentMiddleware handler_ok post_no_key empty_sys =
        \<lparr>Status = 400, body = Some MissingIdempotentKey, aborted = True, sys_of = empty_sys\<rparr>
   \<and> events_of handler_ok post_no_key empty_sys = []
   \<and> \<not> invoked handler_ok post_no_key empty_sys"
proof -
  have a: "Method post_no_key \<noteq> ''GET''" and b: "Method post_no_key \<noteq> ''HEAD''"
    and c: "GetHeader post_no_key ''X-Idempotent-Key'' = []"
    by (simp_all add: post_no_key_def GetHeader_def)
  show ?thesis using a b c missing_key_rejected[OF a b c, of handler_ok empty_sys] by simp
qed

text \<open>
  C6. Nothing looks for the completion record once the lock is held. Two passes for the
  key \<open>k1\<close>: the first finds no completion record; the second then runs from start to
  end, calls the handler, writes the completion record and deletes the lock; the first
  goes on, gets the lock, and calls the handler a second time although the record is in
  the store.
\<close>

theorem handler_called_again_under_lock:
  "fst (cache_Exists empty_sys (redisKey_of ''k1'')) = (0, None)
   \<and> kv second_has_finished (redisKey_of ''k1'') = Some (''1'', 86400)
   \<and> kv second_has_finished (lockKey_of ''k1'') = None
   \<and> app second_has_finished = 1
   \<and> Status first_goes_on = 200
   \<and> app (sys_of first_goes_on) = 2
   \<and> log (sys_of first_goes_on) =
       [StoreExists (redisKey_of ''k1''),
        StoreExists (redisKey_of ''k1''), StoreSetNX (lockKey_of ''k1'') ''locked'' 30, HandlerCall,
        StoreSet (redisKey_of ''k1'') ''1'' 86400, StoreDel (lockKey_of ''k1''),
        StoreSetNX (lockKey_of ''k1'') ''locked'' 30, HandlerCall,
        StoreSet (redisKey_of ''k1'') ''1'' 86400, StoreDel (lockKey_of ''k1'')]"
  by (simp add: first_goes_on_def second_has_finished_def first_has_checked_def
      IdempotentMiddleware_def
      from_lock_def holding_lock_def Next_def cache_Exists_def cache_Lock_def cache_Set_def
      cache_Unlock_def send_def post_k1_def GetHeader_def empty_sys_def handler_ok_def
      redisKey_neq_lockKey Let_def)

text \<open>A pass is these two halves with nothing in between: the check, then \<open>from_lock\<close>.\<close>

lemma middleware_check_then_from_lock:
  assumes "Method req \<noteq> ''GET''" and "Method req \<noteq> ''HEAD''"
    and "GetHeader req ''X-Idempotent-Key'' = k" and "k \<noteq> []"
  shows "IdempotentMiddleware h req s =
           (if fst (fst (cache_Exists s (redisKey_of k))) > 0
            then \<lparr>Status = 409, body = Some AlreadyProcessed, aborted = True,
                  sys_of = snd (cache_Exists s (redisKey_of k))\<rparr>
            else from_lock h k (snd (cache_Exists s (redisKey_of k))))"
  using assms by (simp add: IdempotentMiddleware_def split_beta Let_def)

text \<open>In general: from its lock on, a pass that gets the lock calls the handler next,
  whatever else the store holds.\<close>

lemma from_lock_calls_handler:
  assumes "faults s = []" and "kv s (lockKey_of k) = None"
  shows "\<exists>rest. log (sys_of (from_lock h k s))
                  = log s @ StoreSetNX (lockKey_of k) ''locked'' 30 # HandlerCall # rest"
  using assms
  by (cases "h (app s)")
     (simp add: from_lock_def holding_lock_def Next_def cache_Lock_def cache_Set_def
       cache_Unlock_def send_def Let_def)

text \<open>
  C2. A repeated call after a successful first call does call the handler again when
  the store fails a command whose error the middleware drops. First case: the first
  pass's handler writes 200, the \<open>SET\<close> of the completion record fails and the error is
  discarded, so no record is written; the repeat finds none and calls the handler again.
  Second case: the first pass wrote the record; the repeat's \<open>EXISTS\<close> fails, the error
  is discarded and read as "no record", the lock is free, and the handler is called again.
\<close>

theorem repeat_after_success_invoked:
  "Status (IdempotentMiddleware handler_ok post_k1 third_command_fails) = 200
   \<and> events_of handler_ok post_k1 third_command_fails =
       [StoreExists (redisKey_of ''k1''), StoreSetNX (lockKey_of ''k1'') ''locked'' 30, HandlerCall,
        StoreSet (redisKey_of ''k1'') ''1'' 86400, StoreDel (lockKey_of ''k1'')]
   \<and> kv after_pass_set_failed (redisKey_of ''k1'') = None
   \<and> faults after_pass_set_failed = []
   \<and> invoked handler_ok post_k1 after_pass_set_failed
   \<and> app (sys_of (IdempotentMiddleware handler_ok post_k1 after_pass_set_failed)) = 2
   \<and> Status (IdempotentMiddleware handler_ok post_k1 empty_sys) = 200
   \<and> kv after_pass (redisKey_of ''k1'') = Some (''1'', 86400)
   \<and> invoked handler_ok post_k1 (next_command_fails after_pass)
   \<and> app (sys_of (IdempotentMiddleware handler_ok post_k1 (next_command_fails after_pass))) = 2"
  by (simp add: invoked_def events_of_def after_pass_set_failed_def after_pass_def
      next_command_fails_def third_command_fails_def IdempotentMiddleware_def
      from_lock_def holding_lock_def Next_def cache_Exists_def cache_Lock_def cache_Set_def
      cache_Unlock_def send_def post_k1_def GetHeader_def empty_sys_def handler_ok_def
      redisKey_neq_lockKey Let_def)

text \<open>
  When no command fails, the claim holds. Two requests through the guard with the same
  key \<open>k\<close>; the first one's handler was called, and the second meets the keys as the first
  left them. If the first handler wrote a 2xx status, the first pass wrote the completion
  record with the 24 hour expiry and only then deleted the lock, and the second pass does
  not call its handler. If it wrote any other status, the first pass wrote no completion
  record and deleted the lock, and the second pass calls its handler.
\<close>

lemma repeated_call_no_faults:
  assumes "Method req1 \<noteq> ''GET''" and "Method req1 \<noteq> ''HEAD''"
    and "Method req2 \<noteq> ''GET''" and "Method req2 \<noteq> ''HEAD''"
    and "GetHeader req1 ''X-Idempotent-Key'' = k" and "GetHeader req2 ''X-Idempotent-Key'' = k"
    and "k \<noteq> []"
    and "faults s = []" and "faults s2 = []"
    and "invoked h1 req1 s"
    and "kv s2 = kv (sys_of (IdempotentMiddleware h1 req1 s))"
  shows "(200 \<le> Status (IdempotentMiddleware h1 req1 s) \<and> Status (IdempotentMiddleware h1 req1 s) < 300
            \<longrightarrow> events_of h1 req1 s =
                  [StoreExists (redisKey_of k), StoreSetNX (lockKey_of k) ''locked'' 30, HandlerCall,
                   StoreSet (redisKey_of k) ''1'' 86400, StoreDel (lockKey_of k)]
                \<and> kv (sys_of (IdempotentMiddleware h1 req1 s)) (redisKey_of k) = Some (''1'', 86400)
                \<and> \<not> invoked h2 req2 s2)
       \<and> (\<not> (200 \<le> Status (IdempotentMiddleware h1 req1 s) \<and> Status (IdempotentMiddleware h1 req1 s) < 300)
            \<longrightarrow> events_of h1 req1 s =
                  [StoreExists (redisKey_of k), StoreSetNX (lockKey_of k) ''locked'' 30, HandlerCall,
                   StoreDel (lockKey_of k)]
                \<and> kv (sys_of (IdempotentMiddleware h1 req1 s)) (redisKey_of k) = None
                \<and> kv (sys_of (IdempotentMiddleware h1 req1 s)) (lockKey_of k) = None
                \<and> invoked h2 req2 s2)"
proof -
  have st: "kv s (redisKey_of k) = None" "kv s (lockKey_of k) = None"
    using assms(10) invoked_no_faults[OF assms(1,2,5,7,8), of h1] by simp_all
  obtain code w where hw: "h1 (app s) = (code, w)" by (cases "h1 (app s)")
  note run = middleware_runs[where h = h1 and s = s, OF assms(1,2,5,7,8) st hw]
  have ev: "events_of h1 req1 s =
              [StoreExists (redisKey_of k), StoreSetNX (lockKey_of k) ''locked'' 30, HandlerCall]
              @ (if 200 \<le> code \<and> code < 300 then [StoreSet (redisKey_of k) ''1'' 86400] else [])
              @ [StoreDel (lockKey_of k)]"
    unfolding events_of_no_faults[OF assms(1,2,5,7,8)] using st hw by simp
  have status: "Status (IdempotentMiddleware h1 req1 s) = code" unfolding run by simp
  have kv2: "kv s2 = (if 200 \<le> code \<and> code < 300
                      then (kv s)(redisKey_of k \<mapsto> (''1'', 86400)) else kv s)"
    unfolding assms(11) run by simp
  note inv2 = invoked_no_faults[OF assms(3,4,6,7,9), of h2]
  show ?thesis
  proof (cases "200 \<le> code \<and> code < 300")
    case True
    then show ?thesis unfolding status inv2 ev kv2 run by simp
  next
    case False
    then show ?thesis unfolding status inv2 ev kv2 run using st by simp
  qed
qed

section \<open>Properties of the token bucket\<close>

lemma double_small: "\<bar>x\<bar> < 2 ^ 53 \<Longrightarrow> double x = x"
  by (simp add: double_def)

lemma double_pow:
  "double 9007199254740992 = 9007199254740992"
  "double (- 9007199254740992) = - 9007199254740992"
  by (simp_all add: double_def compute_bitlen Let_def)

lemma double_exact: "exact x \<Longrightarrow> double x = x"
proof -
  assume "exact x"
  then consider "\<bar>x\<bar> < 2 ^ 53" | "x = 9007199254740992" | "x = - 9007199254740992"
    unfolding exact_def by fastforce
  then show ?thesis
  proof cases
    case 1 then show ?thesis by (rule double_small)
  next
    case 2 then show ?thesis by (simp only: double_pow)
  next
    case 3 then show ?thesis by (simp only: double_pow)
  qed
qed

lemma script_exact:
  assumes "tokens b = Some t" and "last_time b = Some l"
    and "exact cap" and "exact rt" and "exact now" and "exact t" and "exact l"
    and "exact (now - l)" and "exact ((now - l) * rt)" and "exact (t + (now - l) * rt)"
  shows "script cap rt now b =
           (let new_tokens = min cap (t + (now - l) * rt)
            in if new_tokens \<ge> 1
               then (1, \<lparr>tokens = Some (new_tokens - 1), last_time = Some now, expire = Some 3600\<rparr>)
               else (0, b\<lparr>tokens := Some new_tokens, last_time := Some now\<rparr>))"
proof -
  let ?n = "min cap (t + (now - l) * rt)"
  have m: "exact (?n - 1)" if "?n \<ge> 1"
    using that assms(3,10) unfolding exact_def by (auto simp: min_def split: if_splits)
  show ?thesis
    using assms m by (simp add: script_def double_exact Let_def)
qed

lemma double_values:
  "double 9007199254740993 = 9007199254740992"
  "double 9007199254740994 = 9007199254740994"
  by (simp_all add: double_def compute_bitlen Let_def)

text \<open>
  C3, within 53 bits. \<open>Allow\<close> at clock reading \<open>now\<close>, the store reachable and holding
  \<open>(storedTokens, lastRefillTime)\<close> for the bucket's key, where capacity, rate, \<open>now\<close>, the
  stored values and the results of the subtraction, the product and the sum are integers
  that a double holds exactly: with
  \<open>newTokens = min capacity (storedTokens + (now - lastRefillTime) * rate)\<close>, if
  \<open>newTokens \<ge> 1\<close> it stores \<open>newTokens - 1\<close> and \<open>now\<close> and returns allowed, otherwise it
  stores \<open>newTokens\<close> and \<open>now\<close> and returns denied.
\<close>

theorem Allow_refill_then_consume:
  assumes "reachable r"
    and "tokens (hashes r (key tb)) = Some storedTokens"
    and "last_time (hashes r (key tb)) = Some lastRefillTime"
    and "exact (capacity tb)" and "exact (rate tb)" and "exact now"
    and "exact storedTokens" and "exact lastRefillTime"
    and "exact (now - lastRefillTime)"
    and "exact ((now - lastRefillTime) * rate tb)"
    and "exact (storedTokens + (now - lastRefillTime) * rate tb)"
  shows "(let newTokens = min (capacity tb) (storedTokens + (now - lastRefillTime) * rate tb);
              after = hashes (snd (Allow tb now r)) (key tb)
          in if newTokens \<ge> 1
             then fst (Allow tb now r) = (True, None)
                  \<and> tokens after = Some (newTokens - 1) \<and> last_time after = Some now
             else fst (Allow tb now r) = (False, None)
                  \<and> tokens after = Some newTokens \<and> last_time after = Some now)"
  using assms(1) script_exact[OF assms(2-11)]
  by (simp add: Allow_def Let_def)

theorem Allow_refill_then_consume_witness:
  "reachable drained_redis
   \<and> tokens (hashes drained_redis (key api_bucket)) = Some 0
   \<and> last_time (hashes drained_redis (key api_bucket)) = Some 100
   \<and> exact (capacity api_bucket) \<and> exact (rate api_bucket) \<and> exact 103 \<and> exact 0 \<and> exact 100
   \<and> exact (103 - 100) \<and> exact ((103 - 100) * rate api_bucket)
   \<and> exact (0 + (103 - 100) * rate api_bucket)
   \<and> fst (Allow api_bucket 103 drained_redis) = (True, None)
   \<and> tokens (hashes (snd (Allow api_bucket 103 drained_redis)) (key api_bucket)) = Some 2
   \<and> last_time (hashes (snd (Allow api_bucket 103 drained_redis)) (key api_bucket)) = Some 103"
proof -
  have a: "reachable drained_redis"
    and b: "tokens (hashes drained_redis (key api_bucket)) = Some 0"
    and c: "last_time (hashes drained_redis (key api_bucket)) = Some 100"
    by (simp_all add: drained_redis_def api_bucket_def NewTokenBucket_def)
  have cap: "capacity api_bucket = 10" and rt: "rate api_bucket = 1"
    by (simp_all add: api_bucket_def NewTokenBucket_def)
  have e: "exact (capacity api_bucket)" "exact (rate api_bucket)" "exact 103" "exact 0" "exact 100"
    "exact (103 - 100)" "exact ((103 - 100) * rate api_bucket)"
    "exact (0 + (103 - 100) * rate api_bucket)"
    by (simp_all add: exact_def cap rt)
  show ?thesis
    using a b c e Allow_refill_then_consume[OF a b c e]
    by (simp add: cap rt Let_def)
qed

text \<open>
  The claim fails past 53 bits. Capacity \<open>2 ^ 53 + 2\<close>, rate 1, stored \<open>2 ^ 53\<close> tokens at
  second 100, \<open>now = 101\<close>: the claim's \<open>newTokens\<close> is \<open>2 ^ 53 + 1\<close> and it has
  \<open>2 ^ 53\<close> stored; the script's sum rounds to \<open>2 ^ 53\<close> and it stores \<open>2 ^ 53 - 1\<close>.
\<close>

theorem Allow_rounds_the_sum:
  "reachable wide_redis
   \<and> tokens (hashes wide_redis (key wide_bucket)) = Some 9007199254740992
   \<and> last_time (hashes wide_redis (key wide_bucket)) = Some 100
   \<and> min (capacity wide_bucket) (9007199254740992 + (101 - 100) * rate wide_bucket) - 1
       = 9007199254740992
   \<and> fst (Allow wide_bucket 101 wide_redis) = (True, None)
   \<and> tokens (hashes (snd (Allow wide_bucket 101 wide_redis)) (key wide_bucket))
       = Some 9007199254740991"
  by (simp add: Allow_def script_def double_values double_pow double_small wide_bucket_def
      wide_redis_def NewTokenBucket_def Let_def)

text \<open>
  C9, within 53 bits. With nothing stored for the key, the script reads the bucket as
  full and refilled just now: it computes what it would on the stored state
  \<open>(capacity, now)\<close>. So with \<open>1 \<le> capacity \<le> 2 ^ 53\<close>, a clock reading a double holds
  exactly and the store reachable, the first \<open>Allow\<close> on a fresh key is admitted and
  leaves \<open>capacity - 1\<close> tokens.
\<close>

theorem Allow_fresh_key:
  assumes "reachable r" and "hashes r (key tb) = no_bucket" and "capacity tb \<ge> 1"
    and "capacity tb \<le> 2 ^ 53" and "exact now"
  shows "script (capacity tb) (rate tb) now no_bucket
           = script (capacity tb) (rate tb) now
               \<lparr>tokens = Some (capacity tb), last_time = Some now, expire = None\<rparr>
         \<and> fst (Allow tb now r) = (True, None)
         \<and> tokens (hashes (snd (Allow tb now r)) (key tb)) = Some (capacity tb - 1)
         \<and> last_time (hashes (snd (Allow tb now r)) (key tb)) = Some now"
proof -
  have c: "exact (capacity tb)" "exact (capacity tb - 1)" "exact 0"
    using assms(3,4) by (simp_all add: exact_def)
  have d: "double (double (capacity tb)) = double (capacity tb)"
    "double (double now) = double now"
    using c(1) assms(5) by (simp_all add: double_exact)
  have eq: "script (capacity tb) (rate tb) now no_bucket
           = script (capacity tb) (rate tb) now
               \<lparr>tokens = Some (capacity tb), last_time = Some now, expire = None\<rparr>"
    by (simp add: script_def no_bucket_def d Let_def)
  have run: "script (capacity tb) (rate tb) now no_bucket =
               (1, \<lparr>tokens = Some (capacity tb - 1), last_time = Some now, expire = Some 3600\<rparr>)"
    using assms(3) c assms(5) by (simp add: script_def no_bucket_def double_exact Let_def)
  have res: "fst (Allow tb now r) = (True, None)
         \<and> tokens (hashes (snd (Allow tb now r)) (key tb)) = Some (capacity tb - 1)
         \<and> last_time (hashes (snd (Allow tb now r)) (key tb)) = Some now"
    using run assms(1,2) by (simp add: Allow_def)
  show ?thesis by (rule conjI[OF eq res])
qed

theorem Allow_fresh_key_witness:
  "reachable fresh_redis \<and> hashes fresh_redis (key api_bucket) = no_bucket
   \<and> capacity api_bucket \<ge> 1 \<and> capacity api_bucket \<le> 2 ^ 53 \<and> exact 100
   \<and> fst (Allow api_bucket 100 fresh_redis) = (True, None)
   \<and> tokens (hashes (snd (Allow api_bucket 100 fresh_redis)) (key api_bucket)) = Some 9
   \<and> last_time (hashes (snd (Allow api_bucket 100 fresh_redis)) (key api_bucket)) = Some 100"
proof -
  have a: "reachable fresh_redis" and b: "hashes fresh_redis (key api_bucket) = no_bucket"
    and c: "capacity api_bucket \<ge> 1" and d: "capacity api_bucket \<le> 2 ^ 53" and e: "exact 100"
    by (simp_all add: fresh_redis_def api_bucket_def NewTokenBucket_def exact_def)
  have cap: "capacity api_bucket = 10"
    by (simp add: api_bucket_def NewTokenBucket_def)
  show ?thesis
    using a b c d e Allow_fresh_key[OF a b c d e] by (simp add: cap)
qed

text \<open>
  The claim fails past 53 bits. Capacity \<open>2 ^ 53 + 1\<close> is read by the script as
  \<open>2 ^ 53\<close>, so the first call on a fresh key leaves \<open>2 ^ 53 - 1\<close> tokens, one less than
  \<open>capacity - 1\<close>.
\<close>

theorem Allow_fresh_key_rounds_capacity:
  "reachable fresh_redis \<and> hashes fresh_redis (key odd_bucket) = no_bucket
   \<and> capacity odd_bucket \<ge> 1
   \<and> capacity odd_bucket - 1 = 9007199254740992
   \<and> fst (Allow odd_bucket 100 fresh_redis) = (True, None)
   \<and> tokens (hashes (snd (Allow odd_bucket 100 fresh_redis)) (key odd_bucket))
       = Some 9007199254740991"
  by (simp add: Allow_def script_def double_values double_pow double_small odd_bucket_def
      fresh_redis_def no_bucket_def NewTokenBucket_def Let_def)

text \<open>
  C8. The stored token count leaves the range when a call reads a clock behind the
  stored \<open>last_time\<close> (another instance's clock, or a clock set back): \<open>delta\<close> is negative
  and the script stores what it computed. On a fresh key, a call at second 100 and then a
  call at second 90 leave \<open>-1\<close> tokens.
\<close>

theorem Allow_seq_clock_behind:
  "tokens (hashes (Allow_seq api_bucket [100, 90] fresh_redis) (key api_bucket)) = Some (- 1)
   \<and> fst (Allow api_bucket 100 fresh_redis) = (True, None)
   \<and> fst (Allow api_bucket 90 (snd (Allow api_bucket 100 fresh_redis))) = (False, None)"
  by (simp add: Allow_def script_def double_small api_bucket_def NewTokenBucket_def
      fresh_redis_def no_bucket_def Let_def)

text \<open>Within 53 bits, with a capacity and a rate that are not negative and a clock
  reading not behind the stored one, a call leaves the count within its bounds.\<close>

lemma script_bounds_clock_forward:
  assumes "tokens b = Some t" and "last_time b = Some l"
    and "exact cap" and "exact rt" and "exact now" and "exact t" and "exact l"
    and "exact (now - l)" and "exact ((now - l) * rt)" and "exact (t + (now - l) * rt)"
    and "0 \<le> cap" and "0 \<le> rt" and "0 \<le> t" and "t \<le> cap" and "l \<le> now"
  shows "\<exists>t1. tokens (snd (script cap rt now b)) = Some t1 \<and> 0 \<le> t1 \<and> t1 \<le> cap"
proof -
  have "0 \<le> (now - l) * rt" using assms(12,15) by simp
  then have "0 \<le> min cap (t + (now - l) * rt)" using assms(11,13) by simp
  then show ?thesis
    unfolding script_exact[OF assms(1-10)] by (auto simp: Let_def)
qed

section \<open>Properties of the circuit breaker\<close>















text \<open>
  C7, as the code has it. On a transition one counter is reset and the other is not:
  closed to open and half open to open set \<open>successCount\<close> to 0 and count the failure in
  \<open>failureCount\<close>; open to half open sets \<open>successCount\<close> to 0 and leaves \<open>failureCount\<close>;
  half open to closed sets \<open>failureCount\<close> to 0 and counts the success in \<open>successCount\<close>.
\<close>

theorem transition_counts:
  "(state cb = StateClosed \<and> state (record_result now err cb) = StateOpen
    \<longrightarrow> failureCount (record_result now err cb) = failureCount cb + 1
        \<and> successCount (record_result now err cb) = 0)
   \<and> (state ob = StateOpen \<and> state (snd (allow now ob)) = StateHalfOpen
    \<longrightarrow> failureCount (snd (allow now ob)) = failureCount ob
        \<and> successCount (snd (allow now ob)) = 0)
   \<and> (state hb = StateHalfOpen \<and> state (record_result now err hb) = StateOpen
    \<longrightarrow> failureCount (record_result now err hb) = failureCount hb + 1
        \<and> successCount (record_result now err hb) = 0)
   \<and> (state hb = StateHalfOpen \<and> state (record_result now ok hb) = StateClosed
    \<longrightarrow> failureCount (record_result now ok hb) = 0
        \<and> successCount (record_result now ok hb) = successCount hb + 1)"
  by (auto simp add: record_result_def allow_def Let_def split: if_splits)

theorem transition_counts_witness:
  "state (NewCircuitBreaker 1 60) = StateClosed
   \<and> state (record_result 1000 (Some ''down'') (NewCircuitBreaker 1 60)) = StateOpen
   \<and> failureCount (record_result 1000 (Some ''down'') (NewCircuitBreaker 1 60)) = 1
   \<and> state open_breaker = StateOpen \<and> state (snd (allow 1061 open_breaker)) = StateHalfOpen
   \<and> failureCount (snd (allow 1061 open_breaker)) = 3
   \<and> successCount (snd (allow 1061 open_breaker)) = 0
   \<and> state half_open_breaker = StateHalfOpen
   \<and> state (record_result 1000 (Some ''down'') half_open_breaker) = StateOpen
   \<and> failureCount (record_result 1000 (Some ''down'') half_open_breaker) = 4
   \<and> state (half_open_breaker\<lparr>successCount := 1\<rparr>) = StateHalfOpen
   \<and> state (record_result 1000 (None :: string option) (half_open_breaker\<lparr>successCount := 1\<rparr>))
       = StateClosed
   \<and> successCount (record_result 1000 (None :: string option) (half_open_breaker\<lparr>successCount := 1\<rparr>))
       = 2"
proof -
  have h: "state (NewCircuitBreaker 1 60) = StateClosed"
    "state (record_result 1000 (Some ''down'') (NewCircuitBreaker 1 60)) = StateOpen"
    "state open_breaker = StateOpen" "state (snd (allow 1061 open_breaker)) = StateHalfOpen"
    "state half_open_breaker = StateHalfOpen"
    "state (record_result 1000 (Some ''down'') half_open_breaker) = StateOpen"
    "state (half_open_breaker\<lparr>successCount := 1\<rparr>) = StateHalfOpen"
    "state (record_result 1000 (None :: string option) (half_open_breaker\<lparr>successCount := 1\<rparr>))
       = StateClosed"
    by (simp_all add: NewCircuitBreaker_def record_result_def allow_def open_breaker_def
        half_open_breaker_def Let_def)
  have v: "failureCount (NewCircuitBreaker 1 60) = 0" "failureCount open_breaker = 3"
    "failureCount half_open_breaker = 3"
    by (simp_all add: NewCircuitBreaker_def open_breaker_def half_open_breaker_def)
  note t1 = transition_counts[where cb = "NewCircuitBreaker 1 60" and now = 1000
      and err = "Some ''down''" and ob = open_breaker and hb = half_open_breaker
      and ok = "None :: string option"]
  note t2 = transition_counts[where cb = "NewCircuitBreaker 1 60" and now = 1061
      and err = "Some ''down''" and ob = open_breaker and hb = half_open_breaker
      and ok = "None :: string option"]
  note t3 = transition_counts[where cb = "NewCircuitBreaker 1 60" and now = 1000
      and err = "Some ''down''" and ob = open_breaker
      and hb = "half_open_breaker\<lparr>successCount := 1\<rparr>" and ok = "None :: string option"]
  show ?thesis
    using h v t1 t2 t3 by simp
qed

text \<open>
  The claim fails here. A breaker with threshold 1 opens on its first failure with
  \<open>failureCount = 1\<close>; the open breaker becomes half open with \<open>failureCount\<close> still 3; and
  the half open breaker closes on its second success with \<open>successCount = 2\<close>.
\<close>

theorem counts_not_reset:
  "state (record_result 1000 (Some ''down'') (NewCircuitBreaker 1 60)) = StateOpen
   \<and> failureCount (record_result 1000 (Some ''down'') (NewCircuitBreaker 1 60)) = 1
   \<and> state (snd (allow 1061 open_breaker)) = StateHalfOpen
   \<and> failureCount (snd (allow 1061 open_breaker)) = 3
   \<and> state (record_result 1064 (None :: string option)
              (record_result 1062 (None :: string option) half_open_breaker)) = StateClosed
   \<and> successCount (record_result 1064 (None :: string option)
              (record_result 1062 (None :: string option) half_open_breaker)) = 2"
  by (simp add: NewCircuitBreaker_def record_result_def allow_def open_breaker_def
      half_open_breaker_def Let_def)

end
